theory Spec2Isabelle
  imports Main "HOL-Library.Sublist"
begin

section \<open>The user model (models/user.py)\<close>

text \<open>
  \<^verbatim>\<open>datetime.now()\<close> reads the clock. The model takes the value read as an
  argument of \<open>create_user\<close>; a timestamp is a count of microseconds.
\<close>

type_synonym datetime = nat

text \<open>
  The dataclass \<^verbatim>\<open>User\<close>, lines 6 to 19. The field \<^verbatim>\<open>id\<close> is named
  \<open>id_field\<close>, since \<open>id\<close> is the identity function of HOL. Python's \<^verbatim>\<open>int\<close> is
  unbounded, hence \<open>int\<close>.
\<close>

record User =
  id_field :: int
  email :: string
  name :: string
  created_at :: datetime

text \<open>The only exception the two files raise is \<^verbatim>\<open>ValueError(message)\<close>.\<close>

datatype error = ValueError string

text \<open>
  \<^verbatim>\<open>__post_init__\<close>, lines 21 to 26: \<open>Some e\<close> when it raises \<open>e\<close>, \<open>None\<close> when it
  returns. \<^verbatim>\<open>not self.email\<close> holds of a \<^verbatim>\<open>str\<close> exactly when it is empty, and
  \<^verbatim>\<open>"@" not in self.email\<close> is the absence of the one-character substring.
\<close>

definition post_init :: "User \<Rightarrow> error option" where
  "post_init self =
     (if email self = [] then Some (ValueError ''Email is required'')
      else if CHR ''@'' \<notin> set (email self) then Some (ValueError ''Invalid email format'')
      else None)"

text \<open>
  The constructor that \<^verbatim>\<open>@dataclass\<close> generates: it stores the four fields and then
  calls \<^verbatim>\<open>__post_init__\<close>. An exception leaves no record behind.
\<close>

definition User_init :: "int \<Rightarrow> string \<Rightarrow> string \<Rightarrow> datetime \<Rightarrow> error + User" where
  "User_init i e n t =
     (let self = \<lparr>id_field = i, email = e, name = n, created_at = t\<rparr>
      in case post_init self of Some err \<Rightarrow> Inl err | None \<Rightarrow> Inr self)"

section \<open>The user service (services/user_service.py)\<close>

text \<open>The object state is the one attribute \<^verbatim>\<open>_users\<close>, a list in insertion order.\<close>

record UserService =
  users :: "User list"

text \<open>\<^verbatim>\<open>__init__\<close>, lines 9 and 10.\<close>

definition UserService_init :: UserService where
  "UserService_init = \<lparr>users = []\<rparr>"

text \<open>
  The loop of \<^verbatim>\<open>get_user_by_id\<close>, lines 14 to 17, as a recursion over the list:
  the first element whose id matches is returned, and falling out of the loop returns
  \<^verbatim>\<open>None\<close>.
\<close>

fun scan :: "User list \<Rightarrow> int \<Rightarrow> User option" where
  "scan [] user_id = None"
| "scan (user # rest) user_id =
     (if id_field user = user_id then Some user else scan rest user_id)"

text \<open>
  Both methods return their result together with the state of the service after the
  call. \<^verbatim>\<open>get_user_by_id\<close> never assigns to \<^verbatim>\<open>self\<close>.
\<close>

definition get_user_by_id :: "UserService \<Rightarrow> int \<Rightarrow> User option \<times> UserService" where
  "get_user_by_id self user_id = (scan (users self) user_id, self)"

text \<open>
  \<^verbatim>\<open>create_user\<close>, lines 19 to 29. The exception of the constructor is not caught,
  so line 28 is not reached and \<^verbatim>\<open>self._users\<close> is as before.
\<close>

definition create_user ::
  "UserService \<Rightarrow> string \<Rightarrow> string \<Rightarrow> datetime \<Rightarrow> (error + User) \<times> UserService" where
  "create_user self e n now =
     (let user_id = int (length (users self)) + 1
      in case User_init user_id e n now of
           Inl err \<Rightarrow> (Inl err, self)
         | Inr user \<Rightarrow> (Inr user, self\<lparr>users := users self @ [user]\<rparr>))"

subsection \<open>Sequences of calls\<close>

text \<open>
  A client of the service makes calls one after the other. \<open>exec\<close> runs a list of
  calls from a state and returns what each call returned, with the final state.
\<close>

datatype call = Create string string datetime | Get int

datatype outcome = Created User | Raised error | Found "User option"

fun perform :: "UserService \<Rightarrow> call \<Rightarrow> outcome \<times> UserService" where
  "perform self (Create e n now) =
     (case create_user self e n now of
        (Inl err, self') \<Rightarrow> (Raised err, self')
      | (Inr user, self') \<Rightarrow> (Created user, self'))"
| "perform self (Get user_id) =
     (case get_user_by_id self user_id of (r, self') \<Rightarrow> (Found r, self'))"

fun exec :: "UserService \<Rightarrow> call list \<Rightarrow> outcome list \<times> UserService" where
  "exec self [] = ([], self)"
| "exec self (c # cs) =
     (case perform self c of (r, self') \<Rightarrow>
        (case exec self' cs of (rs, self'') \<Rightarrow> (r # rs, self'')))"

text \<open>The records that the successful \<^verbatim>\<open>create_user\<close> calls returned, in order.\<close>

fun created :: "outcome list \<Rightarrow> User list" where
  "created [] = []"
| "created (Created user # rs) = user # created rs"
| "created (_ # rs) = created rs"

text \<open>
  The ids stored are \<open>1, 2, \<dots>, N\<close> in insertion order. This is the invariant of the
  service that the properties of lookup rest on.
\<close>

definition ids_ok :: "UserService \<Rightarrow> bool" where
  "ids_ok self = (map id_field (users self) = map int [1..<Suc (length (users self))])"

section \<open>Users as shared objects\<close>

text \<open>
  In Python a \<^verbatim>\<open>User\<close> is an object: \<^verbatim>\<open>_users\<close> holds references, and
  \<^verbatim>\<open>create_user\<close> and \<^verbatim>\<open>get_user_by_id\<close> return a reference to the very object that
  the list holds. Where that sharing matters, the state is a store: the objects
  allocated so far, by reference, the next reference to hand out, and the list
  \<^verbatim>\<open>_users\<close> of references.
\<close>

type_synonym ref = nat

record Store =
  objs :: "ref \<rightharpoonup> User"
  next_ref :: ref
  user_refs :: "ref list"


text \<open>
  The loop of \<^verbatim>\<open>get_user_by_id\<close> over references: \<^verbatim>\<open>user.id\<close> reads the object
  behind the reference. A reference in the list always has its object; the last case
  only makes the function total.
\<close>

fun scan_refs :: "(ref \<rightharpoonup> User) \<Rightarrow> ref list \<Rightarrow> int \<Rightarrow> ref option" where
  "scan_refs h [] user_id = None"
| "scan_refs h (r # rest) user_id =
     (case h r of
        Some user \<Rightarrow> if id_field user = user_id then Some r else scan_refs h rest user_id
      | None \<Rightarrow> scan_refs h rest user_id)"

definition get_user_by_id_ref :: "Store \<Rightarrow> int \<Rightarrow> ref option \<times> Store" where
  "get_user_by_id_ref st user_id = (scan_refs (objs st) (user_refs st) user_id, st)"

text \<open>
  \<^verbatim>\<open>create_user\<close>: the constructor validates as before; the new object gets the next
  reference, which is appended to the list and returned.
\<close>

definition create_user_ref ::
  "Store \<Rightarrow> string \<Rightarrow> string \<Rightarrow> datetime \<Rightarrow> (error + ref) \<times> Store" where
  "create_user_ref st e n now =
     (let user_id = int (length (user_refs st)) + 1
      in case User_init user_id e n now of
           Inl err \<Rightarrow> (Inl err, st)
         | Inr user \<Rightarrow>
             (Inr (next_ref st),
              st\<lparr>objs := (objs st)(next_ref st \<mapsto> user),
                 next_ref := Suc (next_ref st),
                 user_refs := user_refs st @ [next_ref st]\<rparr>))"






text \<open>
  Two invariants of the store: every allocated reference is below \<open>next_ref\<close>, and
  every reference in the list is allocated. \<open>view\<close> reads the store as a state of the
  value model above: the list of the objects behind the references.
\<close>

definition alloc_ok :: "Store \<Rightarrow> bool" where
  "alloc_ok st = (\<forall>r. objs st r \<noteq> None \<longrightarrow> r < next_ref st)"

definition view :: "Store \<Rightarrow> UserService" where
  "view st = \<lparr>users = List.map_filter (objs st) (user_refs st)\<rparr>"

definition refs_ok :: "Store \<Rightarrow> bool" where
  "refs_ok st = (alloc_ok st \<and> (\<forall>r \<in> set (user_refs st). objs st r \<noteq> None))"

section \<open>Validation\<close>

lemma post_init_ok:
  "e \<noteq> [] \<Longrightarrow> CHR ''@'' \<in> set e \<Longrightarrow>
   post_init \<lparr>id_field = i, email = e, name = n, created_at = t\<rparr> = None"
  by (simp add: post_init_def)

lemma User_init_ok:
  "e \<noteq> [] \<Longrightarrow> CHR ''@'' \<in> set e \<Longrightarrow>
   User_init i e n t = Inr \<lparr>id_field = i, email = e, name = n, created_at = t\<rparr>"
  by (simp add: User_init_def post_init_ok)

lemma User_init_empty: "User_init i [] n t = Inl (ValueError ''Email is required'')"
  by (simp add: User_init_def post_init_def)

lemma User_init_no_at:
  "e \<noteq> [] \<Longrightarrow> CHR ''@'' \<notin> set e \<Longrightarrow>
   User_init i e n t = Inl (ValueError ''Invalid email format'')"
  by (simp add: User_init_def post_init_def)

lemma User_init_Inr:
  "User_init i e n t = Inr u \<Longrightarrow>
   u = \<lparr>id_field = i, email = e, name = n, created_at = t\<rparr>"
  by (auto simp: User_init_def Let_def split: option.splits)

lemma create_user_Inl:
  "User_init (int (length (users self)) + 1) e n now = Inl err \<Longrightarrow>
   create_user self e n now = (Inl err, self)"
  by (simp add: create_user_def)

lemma create_user_Inr:
  "User_init (int (length (users self)) + 1) e n now = Inr u \<Longrightarrow>
   create_user self e n now = (Inr u, self\<lparr>users := users self @ [u]\<rparr>)"
  by (simp add: create_user_def)

text \<open>
  Claim C3. For every state of the service, every non-empty email that contains
  \<open>@\<close> and every name (the empty one too), \<open>create_user\<close> raises nothing and returns
  a user with that email and that name.
\<close>

theorem create_user_succeeds:
  assumes "e \<noteq> []" and "CHR ''@'' \<in> set e"
  shows "\<exists>u. fst (create_user self e n now) = Inr u \<and> email u = e \<and> name u = n"
  using assms by (simp add: create_user_Inr [OF User_init_ok])

theorem create_user_succeeds_witness:
  "''a@b.com'' \<noteq> [] \<and> CHR ''@'' \<in> set ''a@b.com'' \<and>
   (\<exists>u. fst (create_user UserService_init ''a@b.com'' [] 0) = Inr u
        \<and> email u = ''a@b.com'' \<and> name u = [])"
  using create_user_succeeds [of "''a@b.com''" UserService_init "[]" 0] by simp

text \<open>
  Claim C4. With the empty email, constructing a user raises the error of the first
  check, \<open>Email is required\<close> (the spec's kind "missing email"), whatever the other
  arguments; \<open>create_user\<close> raises the same error in every state. The error is not
  the one of the second check: the emptiness test comes first.
\<close>

theorem empty_email_missing:
  "User_init i [] n t = Inl (ValueError ''Email is required'')
   \<and> fst (create_user self [] n now) = Inl (ValueError ''Email is required'')
   \<and> User_init i [] n t \<noteq> Inl (ValueError ''Invalid email format'')
   \<and> fst (create_user self [] n now) \<noteq> Inl (ValueError ''Invalid email format'')"
  by (simp add: User_init_empty create_user_Inl [OF User_init_empty])

text \<open>
  Claim C5. With a non-empty email that has no \<open>@\<close>, constructing a user raises
  \<open>Invalid email format\<close>, whatever the other arguments, and so does \<open>create_user\<close>
  in every state.
\<close>

theorem no_at_invalid_format:
  assumes "e \<noteq> []" and "CHR ''@'' \<notin> set e"
  shows "User_init i e n t = Inl (ValueError ''Invalid email format'')
         \<and> fst (create_user self e n now) = Inl (ValueError ''Invalid email format'')"
  using assms by (simp add: User_init_no_at create_user_Inl [OF User_init_no_at])

theorem no_at_invalid_format_witness:
  "''carol'' \<noteq> [] \<and> CHR ''@'' \<notin> set ''carol'' \<and>
   User_init 7 ''carol'' ''Carol'' 0 = Inl (ValueError ''Invalid email format'')
   \<and> fst (create_user UserService_init ''carol'' ''Carol'' 0)
       = Inl (ValueError ''Invalid email format'')"
  using no_at_invalid_format [of "''carol''" 7 "''Carol''" 0 UserService_init 0] by simp

section \<open>Lookup and the id invariant\<close>

lemma scan_find: "scan us k = List.find (\<lambda>u. id_field u = k) us"
  by (induction us) auto

lemma scan_None: "scan us k = None \<longleftrightarrow> (\<forall>u \<in> set us. id_field u \<noteq> k)"
  by (induction us) auto

lemma scan_Some:
  "scan us k = Some u \<longleftrightarrow>
   (\<exists>i < length us. us ! i = u \<and> id_field u = k \<and> (\<forall>j < i. id_field (us ! j) \<noteq> k))"
  by (simp add: scan_find find_Some_iff) blast

lemma scan_append:
  "scan (xs @ ys) k = (case scan xs k of None \<Rightarrow> scan ys k | Some u \<Rightarrow> Some u)"
  by (induction xs) auto

lemma scan_from:
  "map id_field us = map int [m..<m + length us] \<Longrightarrow>
   scan us k = (if int m \<le> k \<and> k < int m + int (length us) then Some (us ! nat (k - int m)) else None)"
proof (induction us arbitrary: m)
  case Nil
  then show ?case by simp
next
  case (Cons u us)
  from Cons.prems have hd: "id_field u = int m"
    and tl: "map id_field us = map int [Suc m..<Suc m + length us]"
    by (simp_all add: upt_rec)
  show ?case
  proof (cases "k = int m")
    case True
    with hd show ?thesis by simp
  next
    case False
    have "nat (k - int m) = Suc (nat (k - int (Suc m)))" if "int m \<le> k"
      using that False by simp
    with False hd Cons.IH [OF tl] show ?thesis by auto
  qed
qed

lemma scan_ids_ok:
  assumes "ids_ok self"
  shows "scan (users self) k =
    (if 1 \<le> k \<and> k \<le> int (length (users self)) then Some (users self ! nat (k - 1)) else None)"
  using scan_from [of "users self" 1 k] assms by (auto simp: ids_ok_def)

lemma ids_ok_init: "ids_ok UserService_init"
  by (simp add: ids_ok_def UserService_init_def)

lemma create_user_cases:
  obtains err where "create_user self e n now = (Inl err, self)"
  | "create_user self e n now =
      (Inr \<lparr>id_field = int (length (users self)) + 1, email = e, name = n, created_at = now\<rparr>,
       self\<lparr>users := users self @ [\<lparr>id_field = int (length (users self)) + 1, email = e, name = n, created_at = now\<rparr>]\<rparr>)"
proof (cases "User_init (int (length (users self)) + 1) e n now")
  case (Inl err)
  then show ?thesis using that(1) by (simp add: create_user_Inl)
next
  case (Inr u)
  then show ?thesis using that(2) User_init_Inr [OF Inr] by (simp add: create_user_Inr)
qed

lemma ids_ok_create: "ids_ok self \<Longrightarrow> ids_ok (snd (create_user self e n now))"
  by (rule create_user_cases [of self e n now]) (auto simp: ids_ok_def)

lemma ids_ok_perform: "ids_ok self \<Longrightarrow> ids_ok (snd (perform self c))"
proof (cases c)
  case (Create e n now)
  assume "ids_ok self"
  from ids_ok_create [OF this, of e n now] Create show ?thesis
    by (auto split: prod.splits sum.splits)
next
  case (Get k)
  assume "ids_ok self"
  with Get show ?thesis by (simp add: get_user_by_id_def)
qed

lemma exec_Cons_fst:
  "fst (exec self (c # cs)) = fst (perform self c) # fst (exec (snd (perform self c)) cs)"
  by (simp split: prod.splits)

lemma exec_Cons_snd:
  "snd (exec self (c # cs)) = snd (exec (snd (perform self c)) cs)"
  by (simp split: prod.splits)

lemma ids_ok_exec: "ids_ok self \<Longrightarrow> ids_ok (snd (exec self cs))"
proof (induction cs arbitrary: self)
  case Nil
  then show ?case by simp
next
  case (Cons c cs)
  have "ids_ok (snd (exec (snd (perform self c)) cs))"
    by (rule Cons.IH) (rule ids_ok_perform [OF Cons.prems])
  then show ?case by (simp only: exec_Cons_snd)
qed

lemma users_perform:
  "users (snd (perform self c)) =
   users self @ (case fst (perform self c) of Created u \<Rightarrow> [u] | _ \<Rightarrow> [])"
proof (cases c)
  case (Create e n now)
  show ?thesis
    by (rule create_user_cases [of self e n now]) (simp_all add: Create)
next
  case (Get k)
  then show ?thesis by (simp add: get_user_by_id_def)
qed

lemma created_Cons:
  "created (r # rs) = (case r of Created u \<Rightarrow> [u] | _ \<Rightarrow> []) @ created rs"
  by (cases r) simp_all

lemma users_exec:
  "users (snd (exec self cs)) = users self @ created (fst (exec self cs))"
proof (induction cs arbitrary: self)
  case Nil
  then show ?case by simp
next
  case (Cons c cs)
  have "users (snd (exec self (c # cs))) = users (snd (exec (snd (perform self c)) cs))"
    by (simp only: exec_Cons_snd)
  also have "\<dots> = users (snd (perform self c)) @ created (fst (exec (snd (perform self c)) cs))"
    by (rule Cons.IH)
  also have "\<dots> = users self @ (case fst (perform self c) of Created u \<Rightarrow> [u] | _ \<Rightarrow> [])
                      @ created (fst (exec (snd (perform self c)) cs))"
    by (simp only: users_perform append_assoc)
  also have "\<dots> = users self @ created (fst (exec self (c # cs)))"
    by (simp only: exec_Cons_fst created_Cons)
  finally show ?case .
qed

lemma ids_ok_nth:
  "ids_ok self \<Longrightarrow> i < length (users self) \<Longrightarrow> id_field (users self ! i) = int i + 1"
proof -
  assume ok: "ids_ok self" and i: "i < length (users self)"
  have "id_field (users self ! i) = map id_field (users self) ! i"
    using i by simp
  also have "\<dots> = map int [1..<Suc (length (users self))] ! i"
    using ok by (simp only: ids_ok_def)
  also have "\<dots> = int i + 1"
    using i by (simp del: upt_Suc)
  finally show ?thesis .
qed

lemma ids_ok_distinct: "ids_ok self \<Longrightarrow> distinct (map id_field (users self))"
  by (simp only: ids_ok_def) (simp add: distinct_map inj_on_def del: upt_Suc)

lemma ids_ok_reachable: "ids_ok (snd (exec UserService_init cs))"
  by (rule ids_ok_exec) (rule ids_ok_init)

lemma users_reachable:
  "users (snd (exec UserService_init cs)) = created (fst (exec UserService_init cs))"
  by (simp add: users_exec UserService_init_def)

lemma get_user_by_id_ids_ok:
  "ids_ok self \<Longrightarrow>
   fst (get_user_by_id self k) =
     (if 1 \<le> k \<and> k \<le> int (length (users self)) then Some (users self ! nat (k - 1)) else None)"
  by (simp add: get_user_by_id_def scan_ids_ok)

section \<open>A run of the service\<close>

text \<open>
  One client session, evaluated: a creation, a creation that fails validation, a second
  creation, a lookup that hits and one that misses.
\<close>

lemma exec_example:
  "exec UserService_init
     [Create ''a@b.com'' ''Alice'' 10, Create ''carol'' ''Carol'' 20,
      Create ''bob@x.com'' ''Bob'' 30, Get 1, Get 99] =
   ([Created \<lparr>id_field = 1, email = ''a@b.com'', name = ''Alice'', created_at = 10\<rparr>,
     Raised (ValueError ''Invalid email format''),
     Created \<lparr>id_field = 2, email = ''bob@x.com'', name = ''Bob'', created_at = 30\<rparr>,
     Found (Some \<lparr>id_field = 1, email = ''a@b.com'', name = ''Alice'', created_at = 10\<rparr>),
     Found None],
    \<lparr>users = [\<lparr>id_field = 1, email = ''a@b.com'', name = ''Alice'', created_at = 10\<rparr>,
               \<lparr>id_field = 2, email = ''bob@x.com'', name = ''Bob'', created_at = 30\<rparr>]\<rparr>)"
  by (simp add: create_user_def User_init_def post_init_def get_user_by_id_def
      UserService_init_def)

lemma exec_example_prefix:
  "exec UserService_init [Create ''a@b.com'' ''Alice'' 10, Create ''carol'' ''Carol'' 20] =
   ([Created \<lparr>id_field = 1, email = ''a@b.com'', name = ''Alice'', created_at = 10\<rparr>,
     Raised (ValueError ''Invalid email format'')],
    \<lparr>users = [\<lparr>id_field = 1, email = ''a@b.com'', name = ''Alice'', created_at = 10\<rparr>]\<rparr>)"
  by (simp add: create_user_def User_init_def post_init_def UserService_init_def)

lemma exec_example_suffix:
  "exec \<lparr>users = [\<lparr>id_field = 1, email = ''a@b.com'', name = ''Alice'', created_at = 10\<rparr>]\<rparr>
     [Create ''bob@x.com'' ''Bob'' 30, Get 1, Get 99] =
   ([Created \<lparr>id_field = 2, email = ''bob@x.com'', name = ''Bob'', created_at = 30\<rparr>,
     Found (Some \<lparr>id_field = 1, email = ''a@b.com'', name = ''Alice'', created_at = 10\<rparr>),
     Found None],
    \<lparr>users = [\<lparr>id_field = 1, email = ''a@b.com'', name = ''Alice'', created_at = 10\<rparr>,
               \<lparr>id_field = 2, email = ''bob@x.com'', name = ''Bob'', created_at = 30\<rparr>]\<rparr>)"
  by (simp add: create_user_def User_init_def post_init_def get_user_by_id_def)

section \<open>Properties of the service\<close>

text \<open>
  Claim C1. Take any sequence of calls on a fresh service, \<open>rs\<close> what the calls
  returned and \<open>s\<close> the state reached. For every record \<open>u\<close> that a successful
  \<open>create_user\<close> of the sequence returned, \<open>get_user_by_id\<close> at the id of \<open>u\<close> returns
  exactly \<open>u\<close>; for every id that no creation of the sequence returned, it returns
  \<open>None\<close>.
\<close>

theorem lookup_returns_created:
  assumes "exec UserService_init cs = (rs, s)"
  shows "(\<forall>u \<in> set (created rs). fst (get_user_by_id s (id_field u)) = Some u)
       \<and> (\<forall>k. k \<notin> id_field ` set (created rs) \<longrightarrow> fst (get_user_by_id s k) = None)"
proof -
  have s: "s = snd (exec UserService_init cs)" and rs: "rs = fst (exec UserService_init cs)"
    using assms by simp_all
  have ok: "ids_ok s" by (simp only: s ids_ok_reachable)
  have u: "users s = created rs" by (simp only: s rs users_reachable)
  have hit: "fst (get_user_by_id s (id_field x)) = Some x" if "x \<in> set (created rs)" for x
  proof -
    from that u obtain i where i: "i < length (users s)" and x: "x = users s ! i"
      by (auto simp: in_set_conv_nth)
    have "id_field x = int i + 1" using ids_ok_nth [OF ok i] x by simp
    with i x show ?thesis by (simp add: get_user_by_id_ids_ok [OF ok])
  qed
  have miss: "fst (get_user_by_id s k) = None" if "k \<notin> id_field ` set (created rs)" for k
    using that u by (auto simp: get_user_by_id_def scan_None)
  from hit miss show ?thesis by blast
qed

theorem lookup_returns_created_witness:
  "fst (get_user_by_id
     \<lparr>users = [\<lparr>id_field = 1, email = ''a@b.com'', name = ''Alice'', created_at = 10\<rparr>,
               \<lparr>id_field = 2, email = ''bob@x.com'', name = ''Bob'', created_at = 30\<rparr>]\<rparr> 1)
     = Some \<lparr>id_field = 1, email = ''a@b.com'', name = ''Alice'', created_at = 10\<rparr>
   \<and> fst (get_user_by_id
     \<lparr>users = [\<lparr>id_field = 1, email = ''a@b.com'', name = ''Alice'', created_at = 10\<rparr>,
               \<lparr>id_field = 2, email = ''bob@x.com'', name = ''Bob'', created_at = 30\<rparr>]\<rparr> 99)
     = None"
  using lookup_returns_created [OF exec_example]
  by simp

text \<open>
  Claim C2. On a fresh service, the ids that the successful creations of any sequence
  of calls return are \<open>1, 2, 3, \<dots>\<close> in that order: the n-th successful creation
  (counted from 0 in the list) has id \<open>n + 1\<close>, and the ids are strictly increasing.
  Failed creations and lookups in between do not change the count.
\<close>

theorem ids_count_from_one:
  assumes "rs = fst (exec UserService_init cs)"
  shows "map id_field (created rs) = map int [1..<Suc (length (created rs))]
       \<and> (\<forall>n < length (created rs). id_field (created rs ! n) = int n + 1)
       \<and> sorted_wrt (<) (map id_field (created rs))"
proof -
  let ?s = "snd (exec UserService_init cs)"
  have u: "users ?s = created rs" by (simp only: assms users_reachable)
  have ok: "ids_ok ?s" by (rule ids_ok_reachable)
  have 1: "map id_field (created rs) = map int [1..<Suc (length (created rs))]"
    using ok by (simp only: ids_ok_def u)
  have 2: "\<forall>n < length (created rs). id_field (created rs ! n) = int n + 1"
    using ids_ok_nth [OF ok] by (simp only: u) blast
  have "sorted_wrt (<) (map int [1..<Suc (length (created rs))])"
    by (simp add: sorted_wrt_map del: upt_Suc)
  with 1 have 3: "sorted_wrt (<) (map id_field (created rs))" by simp
  from 1 2 3 show ?thesis by blast
qed

theorem ids_count_from_one_witness:
  "map id_field (created (fst (exec UserService_init
     [Create ''a@b.com'' ''Alice'' 10, Create ''carol'' ''Carol'' 20,
      Create ''bob@x.com'' ''Bob'' 30, Get 1, Get 99]))) = [1, 2]"
  using ids_count_from_one [OF refl, of
     "[Create ''a@b.com'' ''Alice'' 10, Create ''carol'' ''Carol'' 20,
      Create ''bob@x.com'' ''Bob'' 30, Get 1, Get 99]"]
  unfolding exec_example by simp

text \<open>
  Claim C6. \<open>create_user\<close> raises an error exactly when the constructor raises it, and
  it is that same error. When it raises, the state after the call is the state before
  it, so a later creation behaves as if the failed call had not been made (the id
  is not used up).
\<close>

theorem failed_create_leaves_state:
  "(fst (create_user self e n now) = Inl err
      \<longleftrightarrow> User_init (int (length (users self)) + 1) e n now = Inl err)
   \<and> (fst (create_user self e n now) = Inl err \<longrightarrow>
        snd (create_user self e n now) = self
        \<and> create_user (snd (create_user self e n now)) e' n' now' = create_user self e' n' now')"
  by (cases "User_init (int (length (users self)) + 1) e n now")
     (simp_all add: create_user_Inl create_user_Inr)

theorem failed_create_leaves_state_witness:
  "fst (create_user
         \<lparr>users = [\<lparr>id_field = 1, email = ''a@b.com'', name = ''Alice'', created_at = 10\<rparr>]\<rparr>
         ''carol'' ''Carol'' 20) = Inl (ValueError ''Invalid email format'')
   \<and> snd (create_user
         \<lparr>users = [\<lparr>id_field = 1, email = ''a@b.com'', name = ''Alice'', created_at = 10\<rparr>]\<rparr>
         ''carol'' ''Carol'' 20)
     = \<lparr>users = [\<lparr>id_field = 1, email = ''a@b.com'', name = ''Alice'', created_at = 10\<rparr>]\<rparr>"
  using failed_create_leaves_state
    [of "\<lparr>users = [\<lparr>id_field = 1, email = ''a@b.com'', name = ''Alice'', created_at = 10\<rparr>]\<rparr>"
        "''carol''" "''Carol''" 20 "ValueError ''Invalid email format''"]
  by (simp add: User_init_def post_init_def)

text \<open>
  Claim C8. In every state \<open>s\<close> reached from the fresh service by creations and
  lookups, the stored ids are pairwise distinct. Whatever calls follow, the records of
  \<open>s\<close> are still there, at the same positions and unchanged, so each keeps its id.
\<close>

theorem ids_distinct_and_stable:
  assumes "s = snd (exec UserService_init cs)" and "s' = snd (exec s cs')"
  shows "distinct (map id_field (users s))
       \<and> prefix (users s) (users s')
       \<and> (\<forall>i < length (users s). i < length (users s') \<and> users s' ! i = users s ! i)"
proof -
  have ok: "ids_ok s" by (simp only: assms ids_ok_reachable)
  have app: "users s' = users s @ created (fst (exec s cs'))"
    by (simp only: assms(2) users_exec)
  have "prefix (users s) (users s')"
    by (simp only: app) simp
  moreover have "\<forall>i < length (users s). i < length (users s') \<and> users s' ! i = users s ! i"
    by (simp only: app) (simp add: nth_append)
  ultimately show ?thesis using ids_ok_distinct [OF ok] by blast
qed

theorem ids_distinct_and_stable_witness:
  "distinct (map id_field (users (snd (exec UserService_init
      [Create ''a@b.com'' ''Alice'' 10, Create ''carol'' ''Carol'' 20]))))
   \<and> users (snd (exec (snd (exec UserService_init
        [Create ''a@b.com'' ''Alice'' 10, Create ''carol'' ''Carol'' 20]))
        [Create ''bob@x.com'' ''Bob'' 30, Get 1, Get 99])) ! 0
     = \<lparr>id_field = 1, email = ''a@b.com'', name = ''Alice'', created_at = 10\<rparr>"
  using ids_distinct_and_stable [OF refl refl, of
     "[Create ''a@b.com'' ''Alice'' 10, Create ''carol'' ''Carol'' 20]"
     "[Create ''bob@x.com'' ''Bob'' 30, Get 1, Get 99]"]
  unfolding exec_example_prefix snd_conv exec_example_suffix by simp

text \<open>
  Claim C9. In every state (reachable or not) and for every integer,
  \<open>get_user_by_id\<close> leaves the state as it was and returns the first record, in
  insertion order, whose id is the one asked for: some record at a position \<open>i\<close> with
  that id, no earlier position having it. When no stored record has the id, the
  result is \<open>None\<close>, a value of the result type; the function has no error result.
\<close>

theorem get_user_by_id_first_match:
  "snd (get_user_by_id self k) = self
   \<and> fst (get_user_by_id self k) = List.find (\<lambda>u. id_field u = k) (users self)
   \<and> (case fst (get_user_by_id self k) of
        None \<Rightarrow> \<forall>u \<in> set (users self). id_field u \<noteq> k
      | Some u \<Rightarrow> \<exists>i < length (users self). users self ! i = u \<and> id_field u = k
                   \<and> (\<forall>j < i. id_field (users self ! j) \<noteq> k))"
proof (cases "scan (users self) k")
  case None
  then show ?thesis
    using scan_None [of "users self" k] by (simp add: get_user_by_id_def scan_find)
next
  case (Some u)
  then show ?thesis
    using scan_Some [of "users self" k u] by (simp add: get_user_by_id_def scan_find)
qed

theorem get_user_by_id_first_match_witness:
  "get_user_by_id
     \<lparr>users = [\<lparr>id_field = 1, email = ''a@b.com'', name = ''Alice'', created_at = 10\<rparr>,
               \<lparr>id_field = 2, email = ''bob@x.com'', name = ''Bob'', created_at = 30\<rparr>,
               \<lparr>id_field = 2, email = ''eve@x.com'', name = ''Eve'', created_at = 40\<rparr>]\<rparr> 2
   = (Some \<lparr>id_field = 2, email = ''bob@x.com'', name = ''Bob'', created_at = 30\<rparr>,
      \<lparr>users = [\<lparr>id_field = 1, email = ''a@b.com'', name = ''Alice'', created_at = 10\<rparr>,
               \<lparr>id_field = 2, email = ''bob@x.com'', name = ''Bob'', created_at = 30\<rparr>,
               \<lparr>id_field = 2, email = ''eve@x.com'', name = ''Eve'', created_at = 40\<rparr>]\<rparr>)"
  using get_user_by_id_first_match
    [of "\<lparr>users = [\<lparr>id_field = 1, email = ''a@b.com'', name = ''Alice'', created_at = 10\<rparr>,
               \<lparr>id_field = 2, email = ''bob@x.com'', name = ''Bob'', created_at = 30\<rparr>,
               \<lparr>id_field = 2, email = ''eve@x.com'', name = ''Eve'', created_at = 40\<rparr>]\<rparr>" 2]
  by (simp add: prod_eq_iff)

text \<open>
  Claim C10. In every state reached from the fresh service, the record at position
  \<open>i\<close> (from 0) has id \<open>i + 1\<close>. So with \<open>N\<close> records stored, \<open>get_user_by_id k\<close> is
  the record at position \<open>k - 1\<close> when \<open>1 \<le> k \<le> N\<close>, and \<open>None\<close> for every other \<open>k\<close>.
\<close>

theorem stored_ids_are_positions:
  assumes "s = snd (exec UserService_init cs)"
  shows "(\<forall>i < length (users s). id_field (users s ! i) = int i + 1)
       \<and> (\<forall>k. fst (get_user_by_id s k) =
               (if 1 \<le> k \<and> k \<le> int (length (users s)) then Some (users s ! nat (k - 1))
                else None))"
proof -
  have ok: "ids_ok s" by (simp only: assms ids_ok_reachable)
  show ?thesis
    using ids_ok_nth [OF ok] get_user_by_id_ids_ok [OF ok] by blast
qed

theorem stored_ids_are_positions_witness:
  "fst (get_user_by_id (snd (exec UserService_init
     [Create ''a@b.com'' ''Alice'' 10, Create ''carol'' ''Carol'' 20,
      Create ''bob@x.com'' ''Bob'' 30, Get 1, Get 99])) 2)
     = Some \<lparr>id_field = 2, email = ''bob@x.com'', name = ''Bob'', created_at = 30\<rparr>
   \<and> fst (get_user_by_id (snd (exec UserService_init
     [Create ''a@b.com'' ''Alice'' 10, Create ''carol'' ''Carol'' 20,
      Create ''bob@x.com'' ''Bob'' 30, Get 1, Get 99])) 0) = None
   \<and> fst (get_user_by_id (snd (exec UserService_init
     [Create ''a@b.com'' ''Alice'' 10, Create ''carol'' ''Carol'' 20,
      Create ''bob@x.com'' ''Bob'' 30, Get 1, Get 99])) 3) = None"
  using stored_ids_are_positions [OF refl, of
     "[Create ''a@b.com'' ''Alice'' 10, Create ''carol'' ''Carol'' 20,
      Create ''bob@x.com'' ''Bob'' 30, Get 1, Get 99]"]
  unfolding exec_example by simp

section \<open>The store and the value model\<close>







text \<open>
  As long as only the two methods run, the store behaves as the value model does: the
  view of the state after a call is the state of the value model after the same
  call, and the object behind a returned reference is the record the value model
  returns.
\<close>

lemma map_filter_snoc:
  "List.map_filter f (xs @ [x]) = List.map_filter f xs @ (case f x of None \<Rightarrow> [] | Some y \<Rightarrow> [y])"
  by (simp add: List.map_filter_def split: option.splits)

lemma map_filter_cong_set:
  "(\<And>x. x \<in> set xs \<Longrightarrow> f x = g x) \<Longrightarrow> List.map_filter f xs = List.map_filter g xs"
proof (induction xs)
  case Nil
  show ?case by simp
next
  case (Cons x xs)
  have "f x = g x" by (rule Cons.prems) simp
  moreover have "List.map_filter f xs = List.map_filter g xs"
    by (rule Cons.IH) (rule Cons.prems, simp)
  ultimately show ?case by (simp split: option.splits)
qed

lemma length_map_filter_all:
  "(\<And>x. x \<in> set xs \<Longrightarrow> f x \<noteq> None) \<Longrightarrow> length (List.map_filter f xs) = length xs"
  by (induction xs) (auto split: option.splits)

lemma scan_refs_view:
  "map_option (\<lambda>r. the (h r)) (scan_refs h rs k) = scan (List.map_filter h rs) k"
  by (induction rs) (auto split: option.splits)

lemma get_user_by_id_ref_view:
  "map_option (\<lambda>r. the (objs st r)) (fst (get_user_by_id_ref st k)) = fst (get_user_by_id (view st) k)
   \<and> view (snd (get_user_by_id_ref st k)) = snd (get_user_by_id (view st) k)"
  by (simp add: get_user_by_id_ref_def get_user_by_id_def view_def scan_refs_view)

lemma length_view: "refs_ok st \<Longrightarrow> length (users (view st)) = length (user_refs st)"
  by (simp add: view_def refs_ok_def length_map_filter_all)

lemma create_user_ref_view:
  assumes "refs_ok st"
  shows "view (snd (create_user_ref st e n now)) = snd (create_user (view st) e n now)"
    and "map_sum (\<lambda>x. x) (\<lambda>r. the (objs (snd (create_user_ref st e n now)) r))
           (fst (create_user_ref st e n now)) = fst (create_user (view st) e n now)"
    and "refs_ok (snd (create_user_ref st e n now))"
proof -
  have len: "length (users (view st)) = length (user_refs st)"
    by (rule length_view [OF assms])
  have fresh: "next_ref st \<notin> set (user_refs st)"
  proof
    assume "next_ref st \<in> set (user_refs st)"
    with assms have "objs st (next_ref st) \<noteq> None" by (simp add: refs_ok_def)
    with assms have "next_ref st < next_ref st" unfolding refs_ok_def alloc_ok_def by blast
    then show False by simp
  qed
  have same: "List.map_filter ((objs st)(next_ref st \<mapsto> u)) (user_refs st)
              = List.map_filter (objs st) (user_refs st)" for u
    by (rule map_filter_cong_set) (use fresh in auto)
  show "view (snd (create_user_ref st e n now)) = snd (create_user (view st) e n now)"
    by (cases "User_init (int (length (user_refs st)) + 1) e n now")
       (simp_all add: create_user_ref_def create_user_def len,
        simp add: view_def map_filter_snoc same)
  show "map_sum (\<lambda>x. x) (\<lambda>r. the (objs (snd (create_user_ref st e n now)) r))
           (fst (create_user_ref st e n now)) = fst (create_user (view st) e n now)"
    by (cases "User_init (int (length (user_refs st)) + 1) e n now")
       (simp_all add: create_user_ref_def create_user_def len)
  show "refs_ok (snd (create_user_ref st e n now))"
    using assms
    by (cases "User_init (int (length (user_refs st)) + 1) e n now")
       (auto simp: create_user_ref_def refs_ok_def alloc_ok_def less_Suc_eq)
qed








section \<open>Mutability of user records\<close>




end
